theory Spec2Isabelle
  imports Complex_Main "HOL-Library.Multiset" "HOL-Library.Sublist"
begin

section \<open>Semantic file retrieval: codegen/codegen_query.py\<close>

text \<open>
  The script embeds a query with a pretrained language model and ranks a corpus of stored
  embeddings by cosine similarity. This theory embeds the ranking half
  (\<open>cosine_similarity\<close>, \<open>find_relevant_files\<close>) and the query indirection of
  \<open>generate_query_embedding\<close>.

  Numbers. The vectors are numpy arrays of binary floating-point numbers, and the
  arithmetic of \<open>cosine_similarity\<close> is embedded twice. In \<open>cosine_similarity\<close>, which
  \<open>find_relevant_files\<close> calls, a vector is a list of reals and the sums, products and
  square roots are exact; what is kept of IEEE arithmetic there is the division of two
  numpy scalars, which does not raise on a zero divisor but returns an infinity or NaN,
  and the comparison \<open><\<close> that the sort then applies to such a value. In
  \<open>cosine_similarity_f64\<close> every operation rounds to binary64, overflows to an infinity
  and underflows to zero; the numerical properties of the score are stated about it.
\<close>

subsection \<open>Scalars, errors, records\<close>

datatype npfloat = Finite real | PosInf | NegInf | NaN

datatype error = ValueError | OSError | ModelError

text \<open>One entry of the embeddings file: \<open>item["file_path"]\<close>, \<open>item["embedding"]\<close>.\<close>

record item =
  file_path :: string
  embedding :: "real list"

text \<open>
  \<open>x / y\<close> on numpy float scalars: a zero divisor gives NaN for \<open>0 / 0\<close> and a signed
  infinity otherwise (numpy emits a RuntimeWarning and goes on).
\<close>

definition np_divide :: "real \<Rightarrow> real \<Rightarrow> npfloat" where
  "np_divide x y =
     (if y \<noteq> 0 then Finite (x / y)
      else if x = 0 then NaN
      else if 0 < x then PosInf else NegInf)"

text \<open>The IEEE comparison \<open>x < y\<close>: false as soon as one side is NaN.\<close>

fun np_lt :: "npfloat \<Rightarrow> npfloat \<Rightarrow> bool" where
  "np_lt NaN _ = False"
| "np_lt _ NaN = False"
| "np_lt (Finite x) (Finite y) = (x < y)"
| "np_lt (Finite x) PosInf = True"
| "np_lt (Finite x) NegInf = False"
| "np_lt PosInf _ = False"
| "np_lt NegInf NegInf = False"
| "np_lt NegInf _ = True"

text \<open>The IEEE comparison \<open>x \<ge> y\<close>, likewise false on NaN.\<close>

definition np_ge :: "npfloat \<Rightarrow> npfloat \<Rightarrow> bool" where
  "np_ge x y = (x \<noteq> NaN \<and> y \<noteq> NaN \<and> \<not> np_lt x y)"

subsection \<open>cosine_similarity\<close>

text \<open>
  \<open>np.dot(a, b)\<close> on two one-dimensional arrays: the inner product, and a ValueError
  (shapes not aligned) when the lengths differ.
\<close>

definition np_dot :: "real list \<Rightarrow> real list \<Rightarrow> error + real" where
  "np_dot a b =
     (if length a \<noteq> length b then Inl ValueError
      else Inr (\<Sum>(x, y) \<leftarrow> zip a b. x * y))"

definition np_linalg_norm :: "real list \<Rightarrow> real" where
  "np_linalg_norm a = sqrt (\<Sum>x \<leftarrow> a. x * x)"

text \<open>
  \<open>return np.dot(a, b) / (np.linalg.norm(a) * np.linalg.norm(b))\<close>. The numerator is
  evaluated first, so a shape mismatch raises before any norm is taken.
\<close>

definition cosine_similarity :: "real list \<Rightarrow> real list \<Rightarrow> error + npfloat" where
  "cosine_similarity a b =
     (case np_dot a b of
        Inl e \<Rightarrow> Inl e
      | Inr d \<Rightarrow> Inr (np_divide d (np_linalg_norm a * np_linalg_norm b)))"

subsection \<open>cosine_similarity in binary64 arithmetic\<close>

text \<open>
  numpy computes on \<open>float64\<close> arrays in IEEE binary64 arithmetic: the result of every
  operation is the exact result rounded to the nearest binary64 number, ties going to the
  even significand. \<open>rne\<close> rounds a real to the nearest integer, ties to even.
\<close>

definition rne :: "real \<Rightarrow> int" where
  "rne t =
     (let n = \<lfloor>t\<rfloor>; d = t - of_int n
      in if d < 1 / 2 then n else if 1 / 2 < d then n + 1 else if even n then n else n + 1)"

text \<open>
  The spacing of the binary64 numbers around \<open>x\<close>: \<open>2\<^sup>e\<^sup>-\<^sup>5\<^sup>2\<close> for
  \<open>2\<^sup>e \<le> |x| < 2\<^sup>e\<^sup>+\<^sup>1\<close>, and \<open>2\<^sup>-\<^sup>1\<^sup>0\<^sup>7\<^sup>4\<close> in the subnormal range below
  \<open>2\<^sup>-\<^sup>1\<^sup>0\<^sup>2\<^sup>2\<close>.
\<close>

definition ulp :: "real \<Rightarrow> real" where
  "ulp x = 2 powr (of_int (max \<lfloor>log 2 \<bar>x\<bar>\<rfloor> (- 1022)) - 52)"

text \<open>
  Rounding a real to binary64: to the nearest multiple of the spacing, and to an infinity
  when the rounded value reaches \<open>2\<^sup>1\<^sup>0\<^sup>2\<^sup>4\<close>. A value below half the smallest
  subnormal number rounds to zero. Zero carries no sign here: the sign of a zero shows
  only in a division by it, and the divisor in \<open>cosine_similarity\<close> is a product of two
  square roots, which is never the negative zero.
\<close>

definition round64 :: "real \<Rightarrow> npfloat" where
  "round64 x =
     (if x = 0 then Finite 0
      else (let y = of_int (rne (x / ulp x)) * ulp x
            in if 2 ^ 1024 \<le> \<bar>y\<bar> then (if 0 < x then PosInf else NegInf) else Finite y))"

text \<open>The operations \<open>+\<close>, \<open>*\<close>, \<open>sqrt\<close> and \<open>/\<close> of binary64, infinities and NaN included.\<close>

fun f64_add :: "npfloat \<Rightarrow> npfloat \<Rightarrow> npfloat" where
  "f64_add (Finite x) (Finite y) = round64 (x + y)"
| "f64_add NaN _ = NaN"
| "f64_add _ NaN = NaN"
| "f64_add PosInf NegInf = NaN"
| "f64_add NegInf PosInf = NaN"
| "f64_add PosInf _ = PosInf"
| "f64_add _ PosInf = PosInf"
| "f64_add NegInf _ = NegInf"
| "f64_add _ NegInf = NegInf"

fun f64_sgn :: "npfloat \<Rightarrow> int" where
  "f64_sgn (Finite x) = (if x = 0 then 0 else if 0 < x then 1 else - 1)"
| "f64_sgn PosInf = 1"
| "f64_sgn NegInf = - 1"
| "f64_sgn NaN = 0"

fun f64_multiply :: "npfloat \<Rightarrow> npfloat \<Rightarrow> npfloat" where
  "f64_multiply (Finite x) (Finite y) = round64 (x * y)"
| "f64_multiply x y =
     (if f64_sgn x * f64_sgn y = 0 then NaN
      else if 0 < f64_sgn x * f64_sgn y then PosInf else NegInf)"

fun f64_sqrt :: "npfloat \<Rightarrow> npfloat" where
  "f64_sqrt (Finite x) = (if x < 0 then NaN else round64 (sqrt x))"
| "f64_sqrt PosInf = PosInf"
| "f64_sqrt NegInf = NaN"
| "f64_sqrt NaN = NaN"

fun f64_divide :: "npfloat \<Rightarrow> npfloat \<Rightarrow> npfloat" where
  "f64_divide (Finite x) (Finite y) =
     (if y \<noteq> 0 then round64 (x / y)
      else if x = 0 then NaN
      else if 0 < x then PosInf else NegInf)"
| "f64_divide NaN _ = NaN"
| "f64_divide _ NaN = NaN"
| "f64_divide (Finite x) _ = Finite 0"
| "f64_divide PosInf (Finite y) = (if 0 \<le> y then PosInf else NegInf)"
| "f64_divide NegInf (Finite y) = (if 0 \<le> y then NegInf else PosInf)"
| "f64_divide _ _ = NaN"

text \<open>
  \<open>np.dot(a, b)\<close>, \<open>np.linalg.norm(a)\<close> (the square root of \<open>a.dot(a)\<close>) and
  \<open>cosine_similarity\<close> on \<open>float64\<close> arrays. A vector is the list of its entries, which
  are finite numbers; the products are accumulated in the order of the entries, every
  product and every sum being rounded.
\<close>

definition np_dot_f64 :: "real list \<Rightarrow> real list \<Rightarrow> error + npfloat" where
  "np_dot_f64 a b =
     (if length a \<noteq> length b then Inl ValueError
      else Inr (foldl (\<lambda>acc (x, y). f64_add acc (f64_multiply (Finite x) (Finite y)))
                  (Finite 0) (zip a b)))"

definition np_linalg_norm_f64 :: "real list \<Rightarrow> npfloat" where
  "np_linalg_norm_f64 a =
     f64_sqrt (foldl (\<lambda>acc x. f64_add acc (f64_multiply (Finite x) (Finite x))) (Finite 0) a)"

definition cosine_similarity_f64 :: "real list \<Rightarrow> real list \<Rightarrow> error + npfloat" where
  "cosine_similarity_f64 a b =
     (case np_dot_f64 a b of
        Inl e \<Rightarrow> Inl e
      | Inr d \<Rightarrow> Inr (f64_divide d (f64_multiply (np_linalg_norm_f64 a) (np_linalg_norm_f64 b))))"

subsection \<open>list.sort\<close>

text \<open>
  \<open>scores.sort(key=lambda x: x[1], reverse=True)\<close> is CPython's \<open>list.sort\<close>
  (Objects/listobject.c). It compares keys with \<open><\<close> only. With \<open>reverse=True\<close> it
  reverses the list, sorts it ascending and stably, and reverses the result. The
  ascending sort of a list shorter than 64 elements is: \<open>count_run\<close> finds the run the
  list starts with (ascending, or strictly descending and then reversed in place), and
  \<open>binarysort\<close> inserts each remaining element into it by binary search. That path is
  what is embedded here, for lists of every length. Longer lists are cut into runs that
  are merged; on keys that \<open><\<close> orders totally every stable sort returns the same list, so
  the embedding is exact there at every length, and with NaN keys it is exact below 64
  elements.
\<close>

text \<open>
  The binary search of \<open>binarysort\<close>:
  \<^verbatim>\<open>do { p = l + ((r - l) >> 1); IFLT(pivot, *p) r = p; else l = p+1; } while (l < r);\<close>
\<close>

function bisect :: "('a \<Rightarrow> 'a \<Rightarrow> bool) \<Rightarrow> 'a \<Rightarrow> 'a list \<Rightarrow> nat \<Rightarrow> nat \<Rightarrow> nat" where
  "bisect lt pivot xs l r =
     (if l < r then
        (let p = l + (r - l) div 2
         in if lt pivot (xs ! p) then bisect lt pivot xs l p
            else bisect lt pivot xs (p + 1) r)
      else l)"
  by pat_completeness auto
termination
  by (relation "measure (\<lambda>(lt, pivot, xs, l, r). r - l)") auto

declare bisect.simps [simp del]

definition binary_insert :: "('a \<Rightarrow> 'a \<Rightarrow> bool) \<Rightarrow> 'a \<Rightarrow> 'a list \<Rightarrow> 'a list" where
  "binary_insert lt pivot run =
     (let l = bisect lt pivot run 0 (length run)
      in take l run @ pivot # drop l run)"

text \<open>\<open>binarysort\<close>: the sorted prefix \<open>run\<close> takes in the elements of \<open>rest\<close> one by one.\<close>

fun binarysort :: "('a \<Rightarrow> 'a \<Rightarrow> bool) \<Rightarrow> 'a list \<Rightarrow> 'a list \<Rightarrow> 'a list" where
  "binarysort lt run [] = run"
| "binarysort lt run (pivot # rest) = binarysort lt (binary_insert lt pivot run) rest"

text \<open>
  \<open>count_run\<close>: the length of the run at the head of the list and whether it is
  descending. The first two elements decide the direction; an ascending run goes on
  while the next element is not less than its predecessor, a descending one while it is.
\<close>

fun count_ascending :: "('a \<Rightarrow> 'a \<Rightarrow> bool) \<Rightarrow> 'a \<Rightarrow> 'a list \<Rightarrow> nat" where
  "count_ascending lt prev [] = 0"
| "count_ascending lt prev (x # xs) =
     (if lt x prev then 0 else Suc (count_ascending lt x xs))"

fun count_descending :: "('a \<Rightarrow> 'a \<Rightarrow> bool) \<Rightarrow> 'a \<Rightarrow> 'a list \<Rightarrow> nat" where
  "count_descending lt prev [] = 0"
| "count_descending lt prev (x # xs) =
     (if lt x prev then Suc (count_descending lt x xs) else 0)"

fun count_run :: "('a \<Rightarrow> 'a \<Rightarrow> bool) \<Rightarrow> 'a list \<Rightarrow> nat \<times> bool" where
  "count_run lt [] = (0, False)"
| "count_run lt [x] = (1, False)"
| "count_run lt (x # y # rest) =
     (if lt y x then (2 + count_descending lt y rest, True)
      else (2 + count_ascending lt y rest, False))"

definition sort_ascending :: "('a \<Rightarrow> 'a \<Rightarrow> bool) \<Rightarrow> 'a list \<Rightarrow> 'a list" where
  "sort_ascending lt xs =
     (let (n, descending) = count_run lt xs;
          run = (if descending then rev (take n xs) else take n xs)
      in binarysort lt run (drop n xs))"

text \<open>\<open>xs.sort(key=key, reverse=True)\<close>, returning the sorted list.\<close>

definition list_sort_reverse :: "('a \<Rightarrow> npfloat) \<Rightarrow> 'a list \<Rightarrow> 'a list" where
  "list_sort_reverse key xs =
     rev (sort_ascending (\<lambda>x y. np_lt (key x) (key y)) (rev xs))"

subsection \<open>find_relevant_files\<close>

text \<open>
  The slice \<open>xs[:limit]\<close>: the first \<open>limit\<close> elements, and for a negative \<open>limit\<close>
  all but the last \<open>-limit\<close>.
\<close>

definition slice_to :: "'a list \<Rightarrow> int \<Rightarrow> 'a list" where
  "slice_to xs limit =
     (if 0 \<le> limit then take (nat limit) xs
      else take (length xs - nat (- limit)) xs)"

text \<open>
  The loop over \<open>embeddings\<close>, appending to \<open>scores\<close>; an exception of
  \<open>cosine_similarity\<close> leaves the loop and the function.
\<close>

fun score_loop ::
  "real list \<Rightarrow> item list \<Rightarrow> (string \<times> npfloat) list \<Rightarrow> error + (string \<times> npfloat) list" where
  "score_loop query_embedding [] scores = Inr scores"
| "score_loop query_embedding (it # rest) scores =
     (case cosine_similarity query_embedding (embedding it) of
        Inl e \<Rightarrow> Inl e
      | Inr score \<Rightarrow> score_loop query_embedding rest (scores @ [(file_path it, score)]))"

definition find_relevant_files ::
  "real list \<Rightarrow> item list \<Rightarrow> int \<Rightarrow> error + (string \<times> npfloat) list" where
  "find_relevant_files query_embedding embeddings limit =
     (case score_loop query_embedding embeddings [] of
        Inl e \<Rightarrow> Inl e
      | Inr scores \<Rightarrow> Inr (slice_to (list_sort_reverse snd scores) limit))"

subsection \<open>generate_query_embedding\<close>

text \<open>\<open>s.endswith(suf)\<close>: the last \<open>len(suf)\<close> characters of \<open>s\<close> are \<open>suf\<close>.\<close>

definition endswith :: "string \<Rightarrow> string \<Rightarrow> bool" where
  "endswith s suf =
     (length suf \<le> length s \<and> drop (length s - length suf) s = suf)"

text \<open>
  The file system is a map from paths to contents; a path the map does not have cannot be
  opened. Lines 31 to 54 (loading tokenizer and model, the forward pass, mean pooling) are
  the parameter \<open>model\<close>, which may fail. The function returns the list of the paths it
  opened together with its result.
\<close>

definition generate_query_embedding ::
  "(string \<rightharpoonup> string) \<Rightarrow> (string \<Rightarrow> error + 'v) \<Rightarrow> string \<Rightarrow> string list \<times> (error + 'v)" where
  "generate_query_embedding fs model query_text =
     (if endswith query_text ''.txt'' then
        (case fs query_text of
           None \<Rightarrow> ([query_text], Inl OSError)
         | Some content \<Rightarrow> ([query_text], model content))
      else ([], model query_text))"

subsection \<open>Vocabulary for the properties\<close>


text \<open>
  A list of scores is in descending order when each score is \<open>\<ge>\<close> the one that follows
  it, with the comparison of the floats.
\<close>

fun descending :: "npfloat list \<Rightarrow> bool" where
  "descending [] = True"
| "descending [x] = True"
| "descending (x # y # rest) = (np_ge x y \<and> descending (y # rest))"



section \<open>Properties\<close>

subsection \<open>The query indirection\<close>

lemma endswith_suffix: "endswith s suf \<longleftrightarrow> suffix suf s"
proof
  assume "endswith s suf"
  then have "s = take (length s - length suf) s @ suf"
    by (metis append_take_drop_id endswith_def)
  then show "suffix suf s"
    by (rule suffixI)
next
  assume "suffix suf s"
  then obtain p where "s = p @ suf"
    by (auto simp: suffix_def)
  then show "endswith s suf"
    by (simp add: endswith_def)
qed

text \<open>
  C10: a query is taken for a file reference exactly when it ends with \<open>.txt\<close>. Then the
  file at that path is opened, and nothing else: its contents are embedded in place of
  the query, and the run fails when the file cannot be read. Every other query is
  embedded as it is and no file is opened.
\<close>

theorem query_file_reference:
  "generate_query_embedding fs model q =
     (if suffix ''.txt'' q
      then ([q], case fs q of None \<Rightarrow> Inl OSError | Some content \<Rightarrow> model content)
      else ([], model q))"
  by (simp add: generate_query_embedding_def endswith_suffix split: option.splits)

subsection \<open>The cosine similarity\<close>


lemma sumsq_nonneg: "0 \<le> (\<Sum>x \<leftarrow> a. x * x)" for a :: "real list"
  by (induction a) auto

lemma inner_self: "(\<Sum>(x, y) \<leftarrow> zip a a. x * y) = (\<Sum>x \<leftarrow> a. x * x)" for a :: "real list"
  by (induction a) auto

lemma norm_mult_self: "np_linalg_norm a * np_linalg_norm a = (\<Sum>x \<leftarrow> a. x * x)"
  by (simp add: np_linalg_norm_def sumsq_nonneg)







text \<open>
  In exact arithmetic the cosine similarity of a vector of non-zero magnitude with itself
  is 1.
\<close>

lemma self_similarity_exact:
  assumes "np_linalg_norm v \<noteq> 0"
  shows "cosine_similarity v v = Inr (Finite 1)"
proof -
  have "(\<Sum>x \<leftarrow> v. x * x) \<noteq> 0"
    using assms by (auto simp: np_linalg_norm_def)
  then show ?thesis
    by (simp add: cosine_similarity_def np_dot_def np_divide_def norm_mult_self inner_self)
qed

subsection \<open>Rounding to binary64\<close>

lemma rne_eq: "\<bar>t - of_int m\<bar> < 1 / 2 \<Longrightarrow> rne t = m"
proof -
  assume a: "\<bar>t - of_int m\<bar> < 1 / 2"
  show ?thesis
  proof (cases "of_int m \<le> t")
    case True
    then have "\<lfloor>t\<rfloor> = m" using a by (intro floor_unique) (auto simp: abs_less_iff)
    then show ?thesis using a True by (simp add: rne_def Let_def abs_less_iff)
  next
    case False
    then have f: "\<lfloor>t\<rfloor> = m - 1" using a by (intro floor_unique) (auto simp: abs_less_iff)
    have "1 / 2 < t - of_int (m - 1)" using a False by (simp add: abs_less_iff)
    then show ?thesis using f by (simp add: rne_def Let_def)
  qed
qed

lemma rne_of_int [simp]: "rne (of_int m) = m"
  by (rule rne_eq) simp

lemma rne_close: "\<bar>of_int (rne t) - t\<bar> \<le> 1 / 2"
proof -
  have "of_int \<lfloor>t\<rfloor> \<le> t" "t < of_int \<lfloor>t\<rfloor> + 1" by linarith+
  then show ?thesis by (auto simp: rne_def Let_def abs_le_iff)
qed

lemma ulp_pos: "0 < ulp x"
  by (simp add: ulp_def)

lemma ulp_binade:
  assumes "2 powr (of_int k + 52) \<le> \<bar>x\<bar>" "\<bar>x\<bar> < 2 powr (of_int k + 53)" "- 1074 \<le> k"
  shows "ulp x = 2 powr of_int k"
proof -
  have pos: "0 < \<bar>x\<bar>" using assms(1) by (smt (verit) powr_gt_zero)
  have "\<lfloor>log 2 \<bar>x\<bar>\<rfloor> = k + 52"
    using assms(1,2) pos by (subst floor_log_eq_powr_iff) (simp_all add: add.commute)
  then show ?thesis using assms(3) by (simp add: ulp_def)
qed

lemma ulp_subnormal:
  assumes "\<bar>x\<bar> < 2 powr (- 1022)" "x \<noteq> 0"
  shows "ulp x = 2 powr (- 1074)"
proof -
  from assms(2) have pos: "0 < \<bar>x\<bar>" by simp
  have "log 2 \<bar>x\<bar> < - 1022"
    using assms pos by (simp add: log_less_iff)
  then have "\<lfloor>log 2 \<bar>x\<bar>\<rfloor> < - 1022" by linarith
  then show ?thesis by (simp add: ulp_def max_def)
qed

lemma round64_eq:
  assumes "2 powr (of_int k + 52) \<le> \<bar>x\<bar>" "\<bar>x\<bar> < 2 powr (of_int k + 53)" "- 1074 \<le> k"
    and "\<bar>x / 2 powr of_int k - of_int m\<bar> < 1 / 2"
    and "\<bar>real_of_int m * 2 powr of_int k\<bar> < 2 ^ 1024"
  shows "round64 x = Finite (of_int m * 2 powr of_int k)"
proof -
  have u: "ulp x = 2 powr of_int k" by (rule ulp_binade [OF assms(1-3)])
  have nz: "x \<noteq> 0" using assms(1) by (smt (verit) powr_gt_zero)
  have "rne (x / ulp x) = m" unfolding u by (rule rne_eq [OF assms(4)])
  then show ?thesis using nz assms(5) by (simp add: round64_def u Let_def)
qed

lemma round64_exact:
  assumes "2 ^ 52 \<le> \<bar>m\<bar>" "\<bar>m\<bar> < 2 ^ 53" "- 1074 \<le> k" "k < 972"
  shows "round64 (real_of_int m * 2 powr real_of_int k) = Finite (real_of_int m * 2 powr real_of_int k)"
proof (rule round64_eq [OF _ _ assms(3)])
  have "real_of_int (2 ^ 52) \<le> real_of_int \<bar>m\<bar>" "real_of_int \<bar>m\<bar> < real_of_int (2 ^ 53)"
    using assms(1,2) by (simp_all only: of_int_le_iff of_int_less_iff)
  then have m: "2 ^ 52 \<le> \<bar>real_of_int m\<bar>" "\<bar>real_of_int m\<bar> < 2 ^ 53"
    by simp_all
  have p: "(0::real) < 2 powr real_of_int k" by simp
  show "2 powr (real_of_int k + 52) \<le> \<bar>real_of_int m * 2 powr real_of_int k\<bar>"
    using m(1) p by (simp add: powr_add abs_mult mult.commute)
  show "\<bar>real_of_int m * 2 powr real_of_int k\<bar> < 2 powr (real_of_int k + 53)"
    using m(2) p by (simp add: powr_add abs_mult mult.commute)
  show "\<bar>real_of_int m * 2 powr real_of_int k / 2 powr real_of_int k - real_of_int m\<bar> < 1 / 2" by simp
  have "\<bar>real_of_int m * 2 powr real_of_int k\<bar> < 2 ^ 53 * 2 powr real_of_int k"
    using m(2) p by (simp add: abs_mult)
  also have "\<dots> \<le> 2 ^ 53 * 2 powr 971"
  proof -
    have "real_of_int k \<le> 971" using assms(4) by simp
    then have "2 powr real_of_int k \<le> (2::real) powr 971" by (intro powr_mono) simp_all
    then show ?thesis by (intro mult_left_mono) simp_all
  qed
  also have "\<dots> = 2 ^ 1024" by (simp add: powr_numeral flip: power_add)
  finally show "\<bar>real_of_int m * 2 powr real_of_int k\<bar> < 2 ^ 1024" .
qed

lemma rne_ge: "of_int n \<le> t \<Longrightarrow> n \<le> rne t"
proof -
  assume "of_int n \<le> t"
  then have "n \<le> \<lfloor>t\<rfloor>" by (simp add: le_floor_iff)
  then show ?thesis by (simp add: rne_def Let_def)
qed

lemma rne_le: "t \<le> of_int n \<Longrightarrow> rne t \<le> n"
proof -
  assume a: "t \<le> of_int n"
  then have f: "\<lfloor>t\<rfloor> \<le> n" by (simp add: floor_le_iff) 
  show ?thesis
  proof (cases "\<lfloor>t\<rfloor> = n")
    case True
    then have "t = of_int n" using a by (metis of_int_floor_le order_antisym)
    then show ?thesis by simp
  next
    case False
    with f have "\<lfloor>t\<rfloor> + 1 \<le> n" by simp
    then show ?thesis by (simp add: rne_def Let_def)
  qed
qed

lemma round64_overflow:
  assumes "2 ^ 1024 \<le> \<bar>x\<bar>"
  shows "round64 x = (if 0 < x then PosInf else NegInf)"
proof -
  define e where "e = \<lfloor>log 2 \<bar>x\<bar>\<rfloor>"
  have pos: "0 < \<bar>x\<bar>" using assms by (smt (verit) zero_less_power)
  then have nz: "x \<noteq> 0" by simp
  have "(2::real) powr 1024 \<le> \<bar>x\<bar>" using assms by simp
  then have "1024 \<le> log 2 \<bar>x\<bar>" using pos by (simp only: le_log_iff) 
  then have e: "1024 \<le> e" unfolding e_def by (simp add: le_floor_iff)
  have le: "2 powr of_int e \<le> \<bar>x\<bar>"
    using floor_log_eq_powr_iff [of "\<bar>x\<bar>" 2 e] pos by (simp add: e_def)
  have u: "ulp x = 2 powr (of_int e - 52)" using e by (simp add: ulp_def e_def max_def)
  define t where "t = x / ulp x"
  have "2 powr 52 * ulp x \<le> \<bar>x\<bar>" using le by (simp add: u powr_diff)
  then have t: "2 ^ 52 \<le> \<bar>t\<bar>" using ulp_pos [of x] by (simp add: t_def pos_le_divide_eq)
  have r: "2 ^ 52 \<le> \<bar>rne t\<bar>"
  proof (cases "0 \<le> t")
    case True
    then have "real_of_int (2 ^ 52) \<le> t" using t by simp
    then have "2 ^ 52 \<le> rne t" by (rule rne_ge)
    then show ?thesis by simp
  next
    case False
    then have "t \<le> real_of_int (- (2 ^ 52))" using t by simp
    then have "rne t \<le> - (2 ^ 52)" by (rule rne_le)
    then show ?thesis by simp
  qed
  then have "real_of_int (2 ^ 52) \<le> real_of_int \<bar>rne t\<bar>" by (simp only: of_int_le_iff)
  then have r': "2 ^ 52 \<le> \<bar>real_of_int (rne t)\<bar>" by simp
  have "(2::real) powr 1024 \<le> 2 powr of_int e" using e by (intro powr_mono) simp_all
  then have "(2::real) ^ 1024 \<le> 2 powr of_int e" by simp
  also have "2 powr of_int e = 2 ^ 52 * ulp x" by (simp add: u powr_diff)
  also have "\<dots> \<le> \<bar>real_of_int (rne t)\<bar> * ulp x"
    using r' ulp_pos [of x] by (intro mult_right_mono) simp_all
  also have "\<dots> = \<bar>real_of_int (rne t) * ulp x\<bar>"
    using ulp_pos [of x] by (simp add: abs_mult)
  finally have "2 ^ 1024 \<le> \<bar>real_of_int (rne t) * ulp x\<bar>" .
  then show ?thesis using nz by (simp add: round64_def Let_def t_def)
qed

lemma round64_underflow:
  assumes "\<bar>x\<bar> < 2 powr (- 1075)"
  shows "round64 x = Finite 0"
proof (cases "x = 0")
  case True
  then show ?thesis by (simp add: round64_def)
next
  case False
  have "(2::real) powr (- 1075) \<le> 2 powr (- 1022)" by (intro powr_mono) simp_all
  with assms have "\<bar>x\<bar> < 2 powr (- 1022)" by (rule less_le_trans)
  then have u: "ulp x = 2 powr (- 1074)" using False by (rule ulp_subnormal)
  have "2 powr (- 1075) = 2 powr (- 1074) / (2::real)"
    using powr_diff [of "2::real" "- 1074" 1] by simp
  with assms have "\<bar>x\<bar> / 2 powr (- 1074) < 1 / 2" by (simp add: pos_divide_less_eq)
  then have "\<bar>x / ulp x - real_of_int 0\<bar> < 1 / 2" by (simp add: u)
  then have "rne (x / ulp x) = 0" by (rule rne_eq)
  then show ?thesis using False by (simp add: round64_def Let_def)
qed

lemma round64_0: "round64 0 = Finite 0"
  by (simp add: round64_def)

lemma dot_singleton: "np_dot_f64 [x] [x] = Inr (f64_add (Finite 0) (round64 (x * x)))"
  by (simp add: np_dot_f64_def)

lemma norm_singleton: "np_linalg_norm_f64 [x] = f64_sqrt (f64_add (Finite 0) (round64 (x * x)))"
  by (simp add: np_linalg_norm_f64_def)

lemma round64_1: "round64 1 = Finite 1"
  using round64_exact [of "2 ^ 52" "- 52"] by (simp add: powr_minus_divide)

lemma round64_2: "round64 2 = Finite 2"
  using round64_exact [of "2 ^ 52" "- 51"] by (simp add: powr_minus_divide)

lemma round64_3: "round64 3 = Finite 3"
  using round64_exact [of "3 * 2 ^ 51" "- 51"] by (simp add: powr_minus_divide)




lemma dot_111: "np_dot_f64 [1, 1, 1] [1, 1, 1] = Inr (Finite 3)"
  by (simp add: np_dot_f64_def round64_1 round64_2 round64_3)



lemma cosine_overflow:
  "np_linalg_norm_f64 [2 ^ 600] = PosInf \<and> cosine_similarity_f64 [2 ^ 600] [2 ^ 600] = Inr NaN"
proof -
  have "(2::real) ^ 1024 \<le> \<bar>2 ^ 600 * 2 ^ 600\<bar>" by simp
  then have "round64 (2 ^ 600 * 2 ^ 600) = (if (0::real) < 2 ^ 600 * 2 ^ 600 then PosInf else NegInf)"
    by (rule round64_overflow)
  then have r: "round64 (2 ^ 600 * 2 ^ 600) = PosInf" by simp
  show ?thesis
    unfolding cosine_similarity_f64_def dot_singleton norm_singleton r by simp
qed

lemma cosine_underflow:
  "np_linalg_norm_f64 [1 / 2 ^ 600] = Finite 0 \<and> cosine_similarity_f64 [1 / 2 ^ 600] [1 / 2 ^ 600] = Inr NaN"
proof -
  have "\<bar>1 / 2 ^ 600 * (1 / 2 ^ 600)\<bar> < (2::real) powr (- 1075)"
    by (simp add: powr_minus_divide)
  then have r: "round64 (1 / 2 ^ 600 * (1 / 2 ^ 600)) = Finite 0"
    by (rule round64_underflow)
  show ?thesis
    unfolding cosine_similarity_f64_def dot_singleton norm_singleton r by (simp add: round64_0)
qed

text \<open>
  The claim C8 as stated fails in binary64, beyond any tolerance: the square of
  \<open>2\<^sup>6\<^sup>0\<^sup>0\<close> overflows, so inner product and norms are infinite and the score of
  \<open>[2\<^sup>6\<^sup>0\<^sup>0]\<close> with itself is NaN; the square of \<open>2\<^sup>-\<^sup>6\<^sup>0\<^sup>0\<close> underflows to zero and
  the score is NaN again. Both vectors have a non-zero magnitude.
\<close>

theorem self_similarity_counterexample:
  "np_linalg_norm [2 ^ 600] \<noteq> 0
   \<and> np_linalg_norm_f64 [2 ^ 600] = PosInf
   \<and> cosine_similarity_f64 [2 ^ 600] [2 ^ 600] = Inr NaN
   \<and> np_linalg_norm [1 / 2 ^ 600] \<noteq> 0
   \<and> cosine_similarity_f64 [1 / 2 ^ 600] [1 / 2 ^ 600] = Inr NaN"
proof -
  have nz: "np_linalg_norm [x] \<noteq> 0" if "x \<noteq> 0" for x
    using that by (simp add: np_linalg_norm_def)
  have "np_linalg_norm [2 ^ 600] \<noteq> 0" by (rule nz) simp
  moreover have "np_linalg_norm [1 / 2 ^ 600] \<noteq> 0" by (rule nz) simp
  ultimately show ?thesis using cosine_overflow cosine_underflow by blast
qed

subsection \<open>The error of rounding\<close>

text \<open>
  A finite result of \<open>round64\<close> is within half a spacing of the exact value: within the
  fraction \<open>2\<^sup>-\<^sup>5\<^sup>3\<close> of it, or within \<open>2\<^sup>-\<^sup>1\<^sup>0\<^sup>7\<^sup>5\<close> in the subnormal range. A value
  of magnitude at most \<open>3 \<times> 2\<^sup>1\<^sup>0\<^sup>2\<^sup>2\<close> has a finite result.
\<close>

lemma rounded_close:
  "\<bar>real_of_int (rne (x / ulp x)) * ulp x - x\<bar> \<le> ulp x / 2"
proof -
  define t where "t = x / ulp x"
  have "(real_of_int (rne t) - t) * ulp x = real_of_int (rne t) * ulp x - x"
    using ulp_pos [of x] by (simp add: t_def algebra_simps)
  then have "\<bar>real_of_int (rne t) * ulp x - x\<bar> = \<bar>(real_of_int (rne t) - t) * ulp x\<bar>"
    by (simp only:)
  also have "\<dots> = \<bar>real_of_int (rne t) - t\<bar> * ulp x"
    using ulp_pos [of x] by (simp add: abs_mult)
  also have "\<dots> \<le> 1 / 2 * ulp x"
    using rne_close [of t] ulp_pos [of x] by (intro mult_right_mono) simp_all
  finally show ?thesis by (simp add: t_def)
qed

lemma ulp_le:
  assumes "x \<noteq> 0"
  shows "ulp x \<le> max (\<bar>x\<bar> / 2 ^ 52) (2 powr (- 1074))"
proof (cases "- 1022 \<le> \<lfloor>log 2 \<bar>x\<bar>\<rfloor>")
  case True
  define e where "e = \<lfloor>log 2 \<bar>x\<bar>\<rfloor>"
  have "2 powr real_of_int e \<le> \<bar>x\<bar>"
    using floor_log_eq_powr_iff [of "\<bar>x\<bar>" 2 e] assms by (simp add: e_def)
  then have "2 powr real_of_int e / 2 ^ 52 \<le> \<bar>x\<bar> / 2 ^ 52"
    by (rule divide_right_mono) simp
  moreover have "max \<lfloor>log 2 \<bar>x\<bar>\<rfloor> (- 1022) = e"
    unfolding e_def using True by (rule max_absorb1)
  then have "ulp x = 2 powr (real_of_int e - 52)" by (simp only: ulp_def)
  then have "ulp x = 2 powr real_of_int e / 2 ^ 52" by (simp add: powr_diff)
  ultimately have "ulp x \<le> \<bar>x\<bar> / 2 ^ 52" by simp
  then show ?thesis by (simp add: le_max_iff_disj)
next
  case False
  then have "max \<lfloor>log 2 \<bar>x\<bar>\<rfloor> (- 1022) = - 1022" by (intro max_absorb2) linarith
  then have "ulp x = 2 powr (real_of_int (- 1022) - 52)" by (simp only: ulp_def)
  then have "ulp x = 2 powr (- 1074)" by simp
  then show ?thesis by (simp add: le_max_iff_disj)
qed

lemma half_ulp_le:
  assumes "x \<noteq> 0"
  shows "ulp x / 2 \<le> max (\<bar>x\<bar> / 2 ^ 53) (2 powr (- 1075))"
proof -
  have e: "2 powr (- 1074) / 2 = (2::real) powr (- 1075)"
    using powr_diff [of "2::real" "- 1074" 1] by simp
  have "ulp x / 2 \<le> max (\<bar>x\<bar> / 2 ^ 52) (2 powr (- 1074)) / 2"
    using ulp_le [OF assms] by (rule divide_right_mono) simp
  also have "\<dots> = max (\<bar>x\<bar> / 2 ^ 52 / 2) (2 powr (- 1074) / 2)"
    by (simp add: max_def)
  also have "\<dots> = max (\<bar>x\<bar> / 2 ^ 53) (2 powr (- 1075))"
    by (simp only: e) simp
  finally show ?thesis .
qed

lemma round64_error:
  assumes "round64 x = Finite y"
  shows "\<bar>y - x\<bar> \<le> max (\<bar>x\<bar> / 2 ^ 53) (2 powr (- 1075))"
proof (cases "x = 0")
  case True
  with assms have "y = 0" by (simp add: round64_def)
  with True show ?thesis by (simp add: le_max_iff_disj)
next
  case False
  have "y = real_of_int (rne (x / ulp x)) * ulp x"
    using assms False by (simp add: round64_def Let_def split: if_splits)
  then have "\<bar>y - x\<bar> \<le> ulp x / 2" using rounded_close [of x] by simp
  also note half_ulp_le [OF False]
  finally show ?thesis .
qed

lemma round64_finite:
  assumes "\<bar>x\<bar> \<le> 3 * 2 ^ 1022"
  shows "\<exists>y. round64 x = Finite y"
proof (cases "x = 0")
  case True
  then show ?thesis by (simp add: round64_def)
next
  case False
  define y where "y = real_of_int (rne (x / ulp x)) * ulp x"
  have "(2::real) powr (- 1075) \<le> 2 powr 0" by (rule powr_mono) simp_all
  then have eta: "(2::real) powr (- 1075) \<le> 1" by simp
  have "\<bar>y - x\<bar> \<le> max (\<bar>x\<bar> / 2 ^ 53) (2 powr (- 1075))"
    using rounded_close [of x] half_ulp_le [OF False] unfolding y_def by linarith
  also have "\<dots> \<le> max (3 * 2 ^ 1022 / 2 ^ 53) 1"
    using assms eta by (intro max.mono divide_right_mono) simp_all
  also have "\<dots> = 3 * 2 ^ 969" by simp
  finally have "\<bar>y\<bar> \<le> 3 * 2 ^ 1022 + 3 * 2 ^ 969" using assms by linarith
  also have "\<dots> < (2::real) ^ 1024" by simp
  finally have "\<not> 2 ^ 1024 \<le> \<bar>y\<bar>" by simp
  then show ?thesis using False by (simp add: round64_def Let_def y_def)
qed

lemma foldl_zip_self:
  "foldl (\<lambda>acc (x, y). f64_add acc (round64 (x * y))) acc (zip v v)
   = foldl (\<lambda>acc x. f64_add acc (round64 (x * x))) acc v"
  by (induction v arbitrary: acc) simp_all

lemma norm_of_dot: "np_dot_f64 v v = Inr d \<Longrightarrow> np_linalg_norm_f64 v = f64_sqrt d"
  by (auto simp: np_dot_f64_def np_linalg_norm_f64_def foldl_zip_self)

lemma eta_eq: "(2::real) powr (- 1075) = 1 / 2 ^ 1075"
  by (simp add: powr_minus_divide)

lemma sqrt_range:
  assumes "1 / 2 ^ 1022 \<le> A" "A \<le> 2 ^ 1022"
  shows "1 / 2 ^ 511 \<le> sqrt A" "sqrt A \<le> 2 ^ 511"
proof -
  have "(1 / 2 ^ 511)\<^sup>2 = (1 / 2 ^ 1022 :: real)" by (simp add: power_divide)
  with assms(1) have "(1 / 2 ^ 511)\<^sup>2 \<le> A" by simp
  then show "1 / 2 ^ 511 \<le> sqrt A" by (rule real_le_rsqrt)
  have "A \<le> (2 ^ 511)\<^sup>2" using assms(2) by simp
  then show "sqrt A \<le> 2 ^ 511" by (intro real_le_lsqrt) simp_all
qed

lemma rounded_rel:
  assumes "1 / 2 ^ 1022 \<le> x" "x \<le> 3 * 2 ^ 1022"
  shows "\<exists>y. round64 x = Finite y \<and> (1 - 1 / 2 ^ 53) * x \<le> y \<and> y \<le> (1 + 1 / 2 ^ 53) * x"
proof -
  have xpos: "0 < x" using assms(1) by (smt (verit) divide_pos_pos zero_less_power zero_less_one)
  then have "\<bar>x\<bar> \<le> 3 * 2 ^ 1022" using assms(2) by simp
  then obtain y where y: "round64 x = Finite y" using round64_finite by blast
  have "\<bar>y - x\<bar> \<le> max (\<bar>x\<bar> / 2 ^ 53) (1 / 2 ^ 1075)"
    using round64_error [OF y] by (simp only: eta_eq)
  moreover have "1 / 2 ^ 1075 \<le> x / 2 ^ 53" using assms(1) by simp
  ultimately have e: "\<bar>y - x\<bar> \<le> x / 2 ^ 53" using xpos by simp
  have "(1 - 1 / 2 ^ 53) * x \<le> y" "y \<le> (1 + 1 / 2 ^ 53) * x"
    using e unfolding abs_le_iff by (simp_all add: algebra_simps)
  with y show ?thesis by blast
qed

lemma rounded_small:
  assumes "\<bar>x\<bar> \<le> 2"
  shows "\<exists>y. round64 x = Finite y \<and> \<bar>y - x\<bar> \<le> 2 / 2 ^ 53"
proof -
  have "\<bar>x\<bar> \<le> 3 * 2 ^ 1022" using assms by simp
  then obtain y where y: "round64 x = Finite y" using round64_finite by blast
  have "\<bar>y - x\<bar> \<le> max (\<bar>x\<bar> / 2 ^ 53) (1 / 2 ^ 1075)"
    using round64_error [OF y] by (simp only: eta_eq)
  moreover have "\<bar>x\<bar> / 2 ^ 53 \<le> 2 / 2 ^ 53" using assms by (rule divide_right_mono) simp
  moreover have "(1 / 2 ^ 1075 :: real) \<le> 2 / 2 ^ 53" by simp
  ultimately have "\<bar>y - x\<bar> \<le> 2 / 2 ^ 53" by linarith
  with y show ?thesis by blast
qed

lemma rounded_abs:
  assumes "0 \<le> x" "x \<le> 3 * 2 ^ 1022" "1 / 2 ^ 1022 \<le> m" "x \<le> m"
  shows "\<exists>y. round64 x = Finite y \<and> \<bar>y - x\<bar> \<le> m / 2 ^ 53"
proof -
  have "\<bar>x\<bar> \<le> 3 * 2 ^ 1022" using assms(1,2) by simp
  then obtain y where y: "round64 x = Finite y" using round64_finite by blast
  have "\<bar>y - x\<bar> \<le> max (\<bar>x\<bar> / 2 ^ 53) (1 / 2 ^ 1075)"
    using round64_error [OF y] by (simp only: eta_eq)
  moreover have "\<bar>x\<bar> / 2 ^ 53 \<le> m / 2 ^ 53" using assms(1,4) by (intro divide_right_mono) simp_all
  moreover have "1 / 2 ^ 1075 \<le> m / 2 ^ 53" using assms(3) by simp
  ultimately have "\<bar>y - x\<bar> \<le> m / 2 ^ 53" by linarith
  with y show ?thesis by blast
qed

lemma product_bounds:
  fixes u ra rb na nb :: real
  assumes "0 \<le> u" "u \<le> 1" "0 \<le> ra" "0 \<le> rb"
    and "(1 - u) * ra \<le> na" "na \<le> (1 + u) * ra"
    and "(1 - u) * rb \<le> nb" "nb \<le> (1 + u) * rb"
  shows "(1 - 2 * u) * (ra * rb) \<le> na * nb" "na * nb \<le> (1 + 3 * u) * (ra * rb)"
proof -
  have p: "0 \<le> ra * rb" using assms(3,4) by simp
  have la: "0 \<le> (1 - u) * ra" and lb: "0 \<le> (1 - u) * rb" using assms(2,3,4) by simp_all
  then have na: "0 \<le> na" and nb: "0 \<le> nb" using assms(5,7) by linarith+
  have "((1 - u) * ra) * ((1 - u) * rb) \<le> na * nb"
    by (rule mult_mono' [OF assms(5) assms(7) la lb])
  moreover have "((1 - u) * ra) * ((1 - u) * rb) = ((1 - u) * (1 - u)) * (ra * rb)"
    by (simp only: mult_ac)
  moreover have "(1 - 2 * u) * (ra * rb) \<le> ((1 - u) * (1 - u)) * (ra * rb)"
  proof (rule mult_right_mono [OF _ p])
    have "(1 - u) * (1 - u) = 1 - 2 * u + u * u" by (simp add: algebra_simps)
    then show "1 - 2 * u \<le> (1 - u) * (1 - u)" by simp
  qed
  ultimately show "(1 - 2 * u) * (ra * rb) \<le> na * nb" by linarith
  have "na * nb \<le> ((1 + u) * ra) * ((1 + u) * rb)"
    by (rule mult_mono' [OF assms(6) assms(8) na nb])
  moreover have "((1 + u) * ra) * ((1 + u) * rb) = ((1 + u) * (1 + u)) * (ra * rb)"
    by (simp only: mult_ac)
  moreover have "((1 + u) * (1 + u)) * (ra * rb) \<le> (1 + 3 * u) * (ra * rb)"
  proof (rule mult_right_mono [OF _ p])
    have "u * u \<le> u * 1" using assms(1,2) by (intro mult_left_mono) simp_all
    moreover have "(1 + u) * (1 + u) = 1 + 2 * u + u * u" by (simp add: algebra_simps)
    ultimately show "(1 + u) * (1 + u) \<le> 1 + 3 * u" by simp
  qed
  ultimately show "na * nb \<le> (1 + 3 * u) * (ra * rb)" by linarith
qed

lemma rounded_norm_product:
  assumes "1 / 2 ^ 1022 \<le> A" "A \<le> 2 ^ 1022" "1 / 2 ^ 1022 \<le> B" "B \<le> 2 ^ 1022"
  shows "\<exists>na nb P. round64 (sqrt A) = Finite na \<and> round64 (sqrt B) = Finite nb
           \<and> round64 (na * nb) = Finite P
           \<and> (1 - 4 / 2 ^ 53) * (sqrt A * sqrt B) \<le> P
           \<and> P \<le> (1 + 5 / 2 ^ 53) * (sqrt A * sqrt B)"
proof -
  define ra where "ra = sqrt A"
  define rb where "rb = sqrt B"
  define u :: real where "u = 1 / 2 ^ 53"
  have u: "0 \<le> u" "u \<le> 1" "3 * u \<le> 1" by (simp_all add: u_def)
  have ra: "1 / 2 ^ 511 \<le> ra" "ra \<le> 2 ^ 511"
    unfolding ra_def by (rule sqrt_range [OF assms(1,2)])+
  have rb: "1 / 2 ^ 511 \<le> rb" "rb \<le> 2 ^ 511"
    unfolding rb_def by (rule sqrt_range [OF assms(3,4)])+
  have ra0: "0 \<le> ra" and rb0: "0 \<le> rb" using ra(1) rb(1) by (simp_all add: order_trans [rotated])
  have "1 / 2 ^ 1022 \<le> ra" "ra \<le> 3 * 2 ^ 1022" using ra by simp_all
  then obtain na where na: "round64 ra = Finite na" "(1 - u) * ra \<le> na" "na \<le> (1 + u) * ra"
    unfolding u_def using rounded_rel by blast
  have "1 / 2 ^ 1022 \<le> rb" "rb \<le> 3 * 2 ^ 1022" using rb by simp_all
  then obtain nb where nb: "round64 rb = Finite nb" "(1 - u) * rb \<le> nb" "nb \<le> (1 + u) * rb"
    unfolding u_def using rounded_rel by blast
  define p where "p = ra * rb"
  have plo: "1 / 2 ^ 1022 \<le> p"
  proof -
    have "(1 / 2 ^ 511) * (1 / 2 ^ 511) \<le> ra * rb"
      using ra(1) rb(1) by (intro mult_mono') simp_all
    then show ?thesis by (simp add: p_def)
  qed
  have phi: "p \<le> 2 ^ 1022"
  proof -
    have "ra * rb \<le> 2 ^ 511 * 2 ^ 511"
      using ra(2) rb(2) ra0 rb0 by (intro mult_mono') simp_all
    then show ?thesis by (simp add: p_def)
  qed
  have p0: "0 \<le> p" using ra0 rb0 by (simp add: p_def)
  have lo: "(1 - 2 * u) * p \<le> na * nb" and hi: "na * nb \<le> (1 + 3 * u) * p"
    unfolding p_def
    by (rule product_bounds [OF u(1,2) ra0 rb0 na(2,3) nb(2,3)])+
  define m where "m = (1 + 3 * u) * p"
  have m1: "p \<le> m" using u(1) p0 by (simp add: m_def algebra_simps)
  have m2: "m \<le> 2 * p" using u(3) p0 unfolding m_def by (intro mult_right_mono) simp_all
  have x0: "0 \<le> na * nb"
  proof -
    have "0 \<le> (1 - 2 * u) * p" using p0 by (intro mult_nonneg_nonneg) (simp_all add: u_def)
    with lo show ?thesis by linarith
  qed
  have hi': "na * nb \<le> m" using hi by (simp only: m_def)
  have "na * nb \<le> 3 * 2 ^ 1022" using hi' m2 phi by simp
  moreover have "1 / 2 ^ 1022 \<le> m" using plo m1 by linarith
  ultimately obtain P where P: "round64 (na * nb) = Finite P" "\<bar>P - na * nb\<bar> \<le> m / 2 ^ 53"
    using rounded_abs [OF x0 _ _ hi'] by blast
  have "m / 2 ^ 53 \<le> 2 * p / 2 ^ 53" using m2 by (rule divide_right_mono) simp
  then have e: "\<bar>P - na * nb\<bar> \<le> 2 * u * p" using P(2) by (simp add: u_def)
  have "(1 - 4 * u) * p \<le> P" "P \<le> (1 + 5 * u) * p"
    using e lo hi unfolding abs_le_iff by (simp_all add: algebra_simps)
  then have "(1 - 4 / 2 ^ 53) * (sqrt A * sqrt B) \<le> P" "P \<le> (1 + 5 / 2 ^ 53) * (sqrt A * sqrt B)"
    by (simp_all add: u_def p_def ra_def rb_def)
  with na(1) nb(1) P(1) show ?thesis unfolding ra_def rb_def by blast
qed

lemma quotient_bounds:
  fixes A P :: real
  assumes "0 < A" "(1 - 4 / 2 ^ 53) * A \<le> P" "P \<le> (1 + 5 / 2 ^ 53) * A"
  shows "0 < P" "1 - 5 / 2 ^ 53 \<le> A / P" "A / P \<le> 1 + 5 / 2 ^ 53"
proof -
  have "0 < (1 - 4 / 2 ^ 53) * A" using assms(1) by (intro mult_pos_pos) simp_all
  with assms(2) show P: "0 < P" by linarith
  have "(1 - 5 / 2 ^ 53) * P \<le> (1 - 5 / 2 ^ 53) * ((1 + 5 / 2 ^ 53) * A)"
    using assms(3) by (intro mult_left_mono) simp_all
  also have "\<dots> = ((1 - 5 / 2 ^ 53) * (1 + 5 / 2 ^ 53)) * A" by (simp only: mult.assoc)
  also have "\<dots> \<le> 1 * A" using assms(1) by (intro mult_right_mono) simp_all
  finally show "1 - 5 / 2 ^ 53 \<le> A / P" using P by (simp add: pos_le_divide_eq)
  have "1 * A \<le> ((1 + 5 / 2 ^ 53) * (1 - 4 / 2 ^ 53)) * A"
    using assms(1) by (intro mult_right_mono) simp_all
  also have "\<dots> = (1 + 5 / 2 ^ 53) * ((1 - 4 / 2 ^ 53) * A)" by (simp only: mult.assoc)
  also have "\<dots> \<le> (1 + 5 / 2 ^ 53) * P"
    using assms(2) by (intro mult_left_mono) simp_all
  finally show "A / P \<le> 1 + 5 / 2 ^ 53" using P by (simp add: pos_divide_le_eq)
qed

text \<open>
  C8, amended: for a vector whose squared magnitude, as binary64 computes it, is a finite
  number between \<open>2\<^sup>-\<^sup>1\<^sup>0\<^sup>2\<^sup>2\<close> and \<open>2\<^sup>1\<^sup>0\<^sup>2\<^sup>2\<close>, the cosine similarity of the vector
  with itself is a finite number within \<open>2\<^sup>-\<^sup>5\<^sup>0\<close> of 1.
\<close>

theorem self_similarity_f64:
  assumes "np_dot_f64 v v = Inr (Finite A)" and "1 / 2 ^ 1022 \<le> A" and "A \<le> 2 ^ 1022"
  shows "\<exists>s. cosine_similarity_f64 v v = Inr (Finite s) \<and> \<bar>s - 1\<bar> \<le> 1 / 2 ^ 50"
proof -
  have Apos: "0 < A" using assms(2) by (smt (verit) divide_pos_pos zero_less_power zero_less_one)
  obtain na nb P where na: "round64 (sqrt A) = Finite na" and nb: "round64 (sqrt A) = Finite nb"
      and P: "round64 (na * nb) = Finite P"
      and lo: "(1 - 4 / 2 ^ 53) * (sqrt A * sqrt A) \<le> P"
      and hi: "P \<le> (1 + 5 / 2 ^ 53) * (sqrt A * sqrt A)"
    using rounded_norm_product [OF assms(2,3) assms(2,3)] by blast
  have eq: "nb = na" using na nb by simp
  have sq: "sqrt A * sqrt A = A" using Apos by simp
  have lo': "(1 - 4 / 2 ^ 53) * A \<le> P" and hi': "P \<le> (1 + 5 / 2 ^ 53) * A"
    using lo hi by (simp_all only: sq)
  define Q where "Q = A / P"
  have Ppos: "0 < P" by (rule quotient_bounds(1) [OF Apos lo' hi'])
  have q: "1 - 5 / 2 ^ 53 \<le> Q" "Q \<le> 1 + 5 / 2 ^ 53"
    unfolding Q_def by (rule quotient_bounds(2,3) [OF Apos lo' hi'])+
  have "\<bar>Q\<bar> \<le> 2" using q unfolding abs_le_iff by simp
  then obtain s where s: "round64 Q = Finite s" "\<bar>s - Q\<bar> \<le> 2 / 2 ^ 53"
    using rounded_small by blast
  have close: "\<bar>s - 1\<bar> \<le> 1 / 2 ^ 50"
    using s(2) q unfolding abs_le_iff by simp
  have norm: "np_linalg_norm_f64 v = Finite na"
    using norm_of_dot [OF assms(1)] na Apos by simp
  have "f64_multiply (Finite na) (Finite na) = Finite P" using P by (simp add: eq)
  moreover have "f64_divide (Finite A) (Finite P) = Finite s" using s(1) Ppos by (simp add: Q_def)
  ultimately have "cosine_similarity_f64 v v = Inr (Finite s)"
    by (simp add: cosine_similarity_f64_def assms(1) norm)
  with close show ?thesis by blast
qed

theorem self_similarity_f64_witness:
  "np_dot_f64 [1, 1, 1] [1, 1, 1] = Inr (Finite 3) \<and> 1 / 2 ^ 1022 \<le> (3 :: real) \<and> (3 :: real) \<le> 2 ^ 1022
   \<and> (\<exists>s. cosine_similarity_f64 [1, 1, 1] [1, 1, 1] = Inr (Finite s) \<and> \<bar>s - 1\<bar> \<le> 1 / 2 ^ 50)"
proof -
  have a: "1 / 2 ^ 1022 \<le> (3 :: real)" by simp
  have b: "(3 :: real) \<le> 2 ^ 1022" by simp
  show ?thesis using self_similarity_f64 [OF dot_111 a b] dot_111 a b by blast
qed

subsection \<open>The scoring loop\<close>


lemma score_loop_mismatch:
  "\<exists>it \<in> set items. length (embedding it) \<noteq> length q \<Longrightarrow>
   score_loop q items acc = Inl ValueError"
proof (induction items arbitrary: acc)
  case Nil
  then show ?case by simp
next
  case (Cons it rest)
  show ?case
  proof (cases "length (embedding it) = length q")
    case True
    with Cons.prems have "\<exists>it \<in> set rest. length (embedding it) \<noteq> length q" by auto
    then show ?thesis
      using True by (simp add: Cons.IH cosine_similarity_def np_dot_def)
  next
    case False
    then have "length q \<noteq> length (embedding it)" by simp
    then show ?thesis by (simp add: cosine_similarity_def np_dot_def)
  qed
qed

subsection \<open>The sort keeps every element\<close>







subsection \<open>Errors and the length of the result\<close>



text \<open>
  C5: when some record of the corpus has an embedding whose length differs from the
  query's, \<open>find_relevant_files\<close> raises (the ValueError of \<open>np.dot\<close>) and returns no
  result at all, whatever the other records are.
\<close>

theorem dimension_mismatch_aborts:
  assumes "\<exists>it \<in> set corpus. length (embedding it) \<noteq> length q"
  shows "find_relevant_files q corpus limit = Inl ValueError"
  using assms by (simp add: find_relevant_files_def score_loop_mismatch)

theorem dimension_mismatch_aborts_witness:
  "(\<exists>it \<in> set [\<lparr>file_path = ''a.py'', embedding = [1, 0]\<rparr>, \<lparr>file_path = ''b.py'', embedding = [1, 0, 0]\<rparr>].
      length (embedding it) \<noteq> length [1, 0 :: real])
   \<and> find_relevant_files [1, 0] [\<lparr>file_path = ''a.py'', embedding = [1, 0]\<rparr>, \<lparr>file_path = ''b.py'', embedding = [1, 0, 0]\<rparr>] 5
       = Inl ValueError"
proof -
  have h: "\<exists>it \<in> set [\<lparr>file_path = ''a.py'', embedding = [1, 0]\<rparr>, \<lparr>file_path = ''b.py'', embedding = [1, 0, 0]\<rparr>].
      length (embedding it) \<noteq> length [1, 0 :: real]" by simp
  show ?thesis using h dimension_mismatch_aborts [OF h, of 5] by blast
qed



subsection \<open>Vectors of zero magnitude\<close>









subsection \<open>The ranking scenario\<close>

lemma sqrt_082_bounds: "0.9 < sqrt 0.82" "0.9 / 0.995 < sqrt 0.82" "sqrt 0.82 < 0.9 / 0.993"
proof -
  show "0.9 < sqrt 0.82" by (rule real_less_rsqrt) (simp add: power2_eq_square)
  show "0.9 / 0.995 < sqrt 0.82" by (rule real_less_rsqrt) (simp add: power2_eq_square)
  show "sqrt 0.82 < 0.9 / 0.993" by (rule real_less_lsqrt) (simp_all add: power2_eq_square)
qed

lemma c_score_bounds:
  "0 < 0.9 / sqrt 0.82" "0.9 / sqrt 0.82 < 1" "0.993 < 0.9 / sqrt 0.82" "0.9 / sqrt 0.82 < 0.995"
proof -
  have pos: "0 < sqrt 0.82" by simp
  show "0 < 0.9 / sqrt 0.82" using pos by simp
  show "0.9 / sqrt 0.82 < 1" using sqrt_082_bounds(1) pos by (simp add: pos_divide_less_eq)
  show "0.993 < 0.9 / sqrt 0.82"
    using sqrt_082_bounds(3) pos by (simp add: pos_less_divide_eq pos_divide_less_eq field_simps)
  show "0.9 / sqrt 0.82 < 0.995"
    using sqrt_082_bounds(2) pos by (simp add: pos_less_divide_eq pos_divide_less_eq field_simps)
qed

lemma abs_close: "0.993 < c \<Longrightarrow> c < 0.995 \<Longrightarrow> \<bar>c - 0.994\<bar> < 0.001" for c :: real
  unfolding abs_less_iff by linarith

lemma scenario_scores:
  "score_loop [1, 0]
     [\<lparr>file_path = ''a.py'', embedding = [1, 0]\<rparr>, \<lparr>file_path = ''b.py'', embedding = [0, 1]\<rparr>,
      \<lparr>file_path = ''c.py'', embedding = [0.9, 0.1]\<rparr>] []
   = Inr [(''a.py'', Finite 1), (''b.py'', Finite 0), (''c.py'', Finite (0.9 / sqrt 0.82))]"
  by (simp add: cosine_similarity_def np_dot_def np_linalg_norm_def np_divide_def)

lemma scenario_sort:
  assumes "0 < c" "c < 1"
  shows "list_sort_reverse snd [(''a.py'', Finite 1), (''b.py'', Finite 0), (''c.py'', Finite c)]
     = [(''a.py'', Finite 1), (''c.py'', Finite c), (''b.py'', Finite 0)]"
  using assms by (simp add: list_sort_reverse_def sort_ascending_def binary_insert_def bisect.simps)

text \<open>
  C2: for the corpus a.py \<open>[1,0]\<close>, b.py \<open>[0,1]\<close>, c.py \<open>[0.9,0.1]\<close>, the query
  \<open>[1,0]\<close> and limit 2, the result is a.py with score 1 followed by c.py with score
  \<open>0.9 / sqrt 0.82\<close>, which is within 0.001 of 0.994.
\<close>

theorem ranking_scenario:
  "find_relevant_files [1, 0]
     [\<lparr>file_path = ''a.py'', embedding = [1, 0]\<rparr>, \<lparr>file_path = ''b.py'', embedding = [0, 1]\<rparr>,
      \<lparr>file_path = ''c.py'', embedding = [0.9, 0.1]\<rparr>] 2
   = Inr [(''a.py'', Finite 1), (''c.py'', Finite (0.9 / sqrt 0.82))]
   \<and> \<bar>0.9 / sqrt 0.82 - 0.994\<bar> < 0.001"
proof
  show "find_relevant_files [1, 0]
     [\<lparr>file_path = ''a.py'', embedding = [1, 0]\<rparr>, \<lparr>file_path = ''b.py'', embedding = [0, 1]\<rparr>,
      \<lparr>file_path = ''c.py'', embedding = [0.9, 0.1]\<rparr>] 2
   = Inr [(''a.py'', Finite 1), (''c.py'', Finite (0.9 / sqrt 0.82))]"
    unfolding find_relevant_files_def scenario_scores
    by (simp only: sum.case scenario_sort [OF c_score_bounds(1,2)]) (simp add: slice_to_def)
  show "\<bar>0.9 / sqrt 0.82 - 0.994\<bar> < 0.001"
    by (rule abs_close [OF c_score_bounds(3,4)])
qed

subsection \<open>NaN and the order of the result\<close>


subsection \<open>The sort on keys without NaN\<close>




















subsection \<open>The result when no score is NaN\<close>













subsection \<open>The length and the content of the result\<close>



end
